theory Spec2Isabelle
  imports Main
begin

section \<open>Values of the host editing library\<close>

text \<open>
  The command manager of \<^verbatim>\<open>packages/core/src/CommandManager.ts\<close> wraps the transaction and
  view objects of the host editing library. Only what the manager reads of them is modelled:
  a transaction carries the state it was started from, its meta entries and the steps that
  commands have added to it; the view is the list of transactions handed to its
  \<^verbatim>\<open>dispatch\<close> method.
\<close>

datatype jsval = JUndefined | JNull | JBool bool | JNum int | JStr string

text \<open>JavaScript truthiness, as the \<^verbatim>\<open>!\<close> of \<^verbatim>\<open>!tr.getMeta('preventDispatch')\<close> reads it.\<close>

fun truthy :: "jsval \<Rightarrow> bool" where
  "truthy JUndefined = False"
| "truthy JNull = False"
| "truthy (JBool b) = b"
| "truthy (JNum n) = (n \<noteq> 0)"
| "truthy (JStr s) = (s \<noteq> [])"

record 'st transaction =
  before :: 'st
  meta :: "(string \<times> jsval) list"
  steps :: "string list"

text \<open>\<^verbatim>\<open>state.tr\<close>: every access starts a new transaction on the state, with no meta.\<close>

definition state_tr :: "'st \<Rightarrow> 'st transaction" where
  "state_tr s = \<lparr>before = s, meta = [], steps = []\<rparr>"

definition getMeta :: "'st transaction \<Rightarrow> string \<Rightarrow> jsval" where
  "getMeta t k = (case map_of (meta t) k of Some v \<Rightarrow> v | None \<Rightarrow> JUndefined)"

definition setMeta :: "'st transaction \<Rightarrow> string \<Rightarrow> jsval \<Rightarrow> 'st transaction" where
  "setMeta t k v = t\<lparr>meta := (k, v) # meta t\<rparr>"

definition addStep :: "'st transaction \<Rightarrow> string \<Rightarrow> 'st transaction" where
  "addStep t s = t\<lparr>steps := steps t @ [s]\<rparr>"

section \<open>Commands\<close>

text \<open>
  A raw command is \<^verbatim>\<open>(...args) => (props) => boolean\<close>. What it does with the props the
  manager builds is a tree of interactions: it returns or throws, changes or reads the
  transaction \<^verbatim>\<open>props.tr\<close>, tests or calls \<^verbatim>\<open>props.dispatch\<close>, and re-enters the manager
  through \<^verbatim>\<open>props.chain()\<close>, \<^verbatim>\<open>props.can()\<close> and \<^verbatim>\<open>props.commands\<close>, continuing on the
  boolean it gets back. The props \<^verbatim>\<open>editor\<close> and \<^verbatim>\<open>view\<close> are host references that the
  manager passes through unchanged; a command that goes to the host through them is not
  acting through the manager, and is outside this model.
\<close>

text \<open>
  A call is a property name with its arguments. The constructors of a body, with the
  JavaScript they stand for (\<open>a\<close> and \<open>b\<close> are the continuations on \<^verbatim>\<open>true\<close> and on
  \<^verbatim>\<open>false\<close>):
  \<^item> \<open>Return b\<close>: \<^verbatim>\<open>return b\<close>;
  \<^item> \<open>Throw\<close>: \<^verbatim>\<open>throw new Error(..)\<close>;
  \<^item> \<open>SetMeta k v rest\<close>: \<^verbatim>\<open>tr.setMeta(k, v)\<close>, then \<open>rest\<close>;
  \<^item> \<open>AddStep s rest\<close>: a step added to \<^verbatim>\<open>tr\<close>, then \<open>rest\<close>;
  \<^item> \<open>IfMeta k a b\<close>: \<^verbatim>\<open>if (tr.getMeta(k)) a else b\<close>;
  \<^item> \<open>IfDispatch a b\<close>: \<^verbatim>\<open>if (dispatch) a else b\<close>;
  \<^item> \<open>CallDispatch rest\<close>: \<^verbatim>\<open>dispatch()\<close>, then \<open>rest\<close>;
  \<^item> \<open>PropsChain calls a b\<close>: \<^verbatim>\<open>if (chain().c1(..)...cn(..).run()) a else b\<close>;
  \<^item> \<open>PropsCan call a b\<close>: \<^verbatim>\<open>if (can().c(..)) a else b\<close>;
  \<^item> \<open>PropsCanChain calls a b\<close>: \<^verbatim>\<open>if (can().chain().c1(..)...cn(..).run()) a else b\<close>;
  \<^item> \<open>PropsCommand call a b\<close>: \<^verbatim>\<open>if (commands.c(..)) a else b\<close>.
\<close>

type_synonym call = "string \<times> jsval list"

datatype body =
    Return bool
  | Throw
  | SetMeta string jsval body
  | AddStep string body
  | IfMeta string body body
  | IfDispatch body body
  | CallDispatch body
  | PropsChain "call list" body body
  | PropsCan call body body
  | PropsCanChain "call list" body body
  | PropsCommand call body body

type_synonym command = "jsval list \<Rightarrow> body"

datatype error = Thrown | TypeError | RangeError

text \<open>
  The props object of \<^verbatim>\<open>buildProps\<close>, as far as the manager decides it: whether
  \<^verbatim>\<open>dispatch\<close> is a function or \<^verbatim>\<open>undefined\<close>, the \<^verbatim>\<open>shouldDispatch\<close> that the closure
  \<^verbatim>\<open>chain\<close> captured, and the \<^verbatim>\<open>dispatch\<close> of the props object that the getter
  \<^verbatim>\<open>commands\<close> captured (the spread copy of \<^verbatim>\<open>createCan\<close> keeps both closures of the
  object it copies).
\<close>

record props =
  dispatch :: bool
  chain_shouldDispatch :: bool
  commands_dispatch :: bool

text \<open>
  The state threaded through an operation: the transaction object the operation works on
  (every nested chain and evaluator receives this same object as its start transaction),
  the transactions the view's \<^verbatim>\<open>dispatch\<close> has received, and a ghost log of the props
  handed to each executed raw command.
\<close>

record 'st exec_state =
  tr :: "'st transaction"
  dispatched :: "'st transaction list"
  handed :: "(string \<times> props) list"

type_synonym 'st runner =
  "props \<Rightarrow> body \<Rightarrow> 'st exec_state \<Rightarrow> (error + bool) \<times> 'st exec_state"

definition view_dispatch :: "'st exec_state \<Rightarrow> 'st exec_state" where
  "view_dispatch st = st\<lparr>dispatched := dispatched st @ [tr st]\<rparr>"

text \<open>
  The expression \<^verbatim>\<open>command(...args)(props)\<close>. Its first argument runs the body of the
  command on the engine's remaining stack.
\<close>

definition invoke ::
  "'st runner \<Rightarrow> string \<Rightarrow> command \<Rightarrow> jsval list \<Rightarrow> props \<Rightarrow> 'st exec_state
    \<Rightarrow> (error + bool) \<times> 'st exec_state" where
  "invoke ex name command args p st =
     ex p (command args) (st\<lparr>handed := handed st @ [(name, p)]\<rparr>)"

section \<open>The command manager\<close>

record 'st manager =
  editor_state :: 'st
  rawCommands :: "string \<Rightarrow> command option"
  customState :: "'st option"

definition hasCustomState :: "'st manager \<Rightarrow> bool" where
  "hasCustomState m = (customState m \<noteq> None)"

definition state :: "'st manager \<Rightarrow> 'st" where
  "state m = (case customState m of Some s \<Rightarrow> s | None \<Rightarrow> editor_state m)"

definition alwaysReturnFalse :: "jsval list \<Rightarrow> bool" where
  "alwaysReturnFalse args = False"

definition buildProps :: "bool \<Rightarrow> props" where
  "buildProps shouldDispatch =
     \<lparr>dispatch = shouldDispatch,
      chain_shouldDispatch = shouldDispatch,
      commands_dispatch = shouldDispatch\<rparr>"

subsection \<open>Single commands\<close>

text \<open>The getter \<^verbatim>\<open>commands\<close> starts a transaction; each method of its result works on it.\<close>

definition commands :: "'st manager \<Rightarrow> 'st exec_state \<Rightarrow> 'st exec_state" where
  "commands m st = st\<lparr>tr := state_tr (state m)\<rparr>"

text \<open>
  \<^verbatim>\<open>commands[name](...args)\<close>. A name with no entry gives \<^verbatim>\<open>undefined\<close>, and calling
  that is a TypeError. There is no \<^verbatim>\<open>try\<close> around the command.
\<close>

definition commands_method ::
  "'st runner \<Rightarrow> 'st manager \<Rightarrow> string \<Rightarrow> jsval list \<Rightarrow> 'st exec_state
    \<Rightarrow> (error + bool) \<times> 'st exec_state" where
  "commands_method ex m name args st =
     (let props = buildProps True in
      case rawCommands m name of
        None \<Rightarrow> (Inl TypeError, st)
      | Some command \<Rightarrow>
          (case invoke ex name command args props st of
             (Inl e, st') \<Rightarrow> (Inl e, st')
           | (Inr callback, st') \<Rightarrow>
               (Inr callback,
                if \<not> truthy (getMeta (tr st') ''preventDispatch'') \<and> \<not> hasCustomState m
                then view_dispatch st' else st')))"

subsection \<open>Chains\<close>

datatype outcome = Callback bool | CommandError | CommandNotFound

record chain_state =
  callbacks :: "outcome list"
  hasStartTransaction :: bool
  shouldDispatch :: bool

definition createChain ::
  "'st manager \<Rightarrow> 'st transaction option \<Rightarrow> bool \<Rightarrow> 'st exec_state
    \<Rightarrow> chain_state \<times> 'st exec_state" where
  "createChain m startTr sd st =
     (\<lparr>callbacks = [], hasStartTransaction = (startTr \<noteq> None), shouldDispatch = sd\<rparr>,
      st\<lparr>tr := (case startTr of Some t \<Rightarrow> t | None \<Rightarrow> state_tr (state m))\<rparr>)"

definition run :: "'st manager \<Rightarrow> chain_state \<Rightarrow> 'st exec_state \<Rightarrow> bool \<times> 'st exec_state" where
  "run m c st =
     (list_all (\<lambda>callback. callback = Callback True) (callbacks c),
      if \<not> hasStartTransaction c
         \<and> shouldDispatch c
         \<and> \<not> truthy (getMeta (tr st) ''preventDispatch'')
         \<and> \<not> hasCustomState m
         \<and> CommandError \<notin> set (callbacks c)
         \<and> CommandNotFound \<notin> set (callbacks c)
      then view_dispatch st else st)"

definition chainedCommand ::
  "'st runner \<Rightarrow> 'st manager \<Rightarrow> string \<Rightarrow> jsval list \<Rightarrow> chain_state \<Rightarrow> 'st exec_state
    \<Rightarrow> chain_state \<times> 'st exec_state" where
  "chainedCommand ex m prop args c st =
     (let props = buildProps (shouldDispatch c) in
      case rawCommands m prop of
        None \<Rightarrow> (c\<lparr>callbacks := callbacks c @ [CommandNotFound]\<rparr>, st)
      | Some command \<Rightarrow>
          (case invoke ex prop command args props st of
             (Inr callback, st') \<Rightarrow> (c\<lparr>callbacks := callbacks c @ [Callback callback]\<rparr>, st')
           | (Inl e, st') \<Rightarrow> (c\<lparr>callbacks := callbacks c @ [CommandError]\<rparr>, st')))"

text \<open>
  The \<^verbatim>\<open>get\<close> handler of the chain's proxy, applied: the property \<^verbatim>\<open>run\<close> is the
  function \<^verbatim>\<open>run\<close>, and every other property is a chained command.
\<close>

datatype chain_result = RunResult bool | Chained chain_state

definition chain_get ::
  "'st runner \<Rightarrow> 'st manager \<Rightarrow> string \<Rightarrow> jsval list \<Rightarrow> chain_state \<Rightarrow> 'st exec_state
    \<Rightarrow> chain_result \<times> 'st exec_state" where
  "chain_get ex m prop args c st =
     (if prop = ''run'' then (case run m c st of (b, st') \<Rightarrow> (RunResult b, st'))
      else (case chainedCommand ex m prop args c st of (c', st') \<Rightarrow> (Chained c', st')))"

text \<open>
  A sequence of method calls on a chain, \<^verbatim>\<open>chain.a(..).b(..)\<close>. A call of \<^verbatim>\<open>run\<close>
  gives a boolean, and the next method call on that is a TypeError.
\<close>

fun chain_calls ::
  "'st runner \<Rightarrow> 'st manager \<Rightarrow> call list \<Rightarrow> chain_state \<Rightarrow> 'st exec_state
    \<Rightarrow> (error + chain_state) \<times> 'st exec_state" where
  "chain_calls ex m [] c st = (Inr c, st)"
| "chain_calls ex m (pa # rest) c st =
     (case chain_get ex m (fst pa) (snd pa) c st of
        (RunResult b, st') \<Rightarrow> (Inl TypeError, st')
      | (Chained c', st') \<Rightarrow> chain_calls ex m rest c' st')"

text \<open>\<^verbatim>\<open>chain.a(..).b(..).run()\<close>\<close>

definition chain_run ::
  "'st runner \<Rightarrow> 'st manager \<Rightarrow> call list \<Rightarrow> chain_state \<Rightarrow> 'st exec_state
    \<Rightarrow> (error + bool) \<times> 'st exec_state" where
  "chain_run ex m calls c st =
     (case chain_calls ex m calls c st of
        (Inl e, st') \<Rightarrow> (Inl e, st')
      | (Inr c', st') \<Rightarrow> (case run m c' st' of (b, st'') \<Rightarrow> (Inr b, st'')))"

subsection \<open>The can evaluator\<close>

definition createCan ::
  "'st manager \<Rightarrow> 'st transaction option \<Rightarrow> 'st exec_state \<Rightarrow> 'st exec_state" where
  "createCan m startTr st =
     st\<lparr>tr := (case startTr of Some t \<Rightarrow> t | None \<Rightarrow> state_tr (state m))\<rparr>"

text \<open>
  The \<^verbatim>\<open>get\<close> handler of the evaluator's proxy, applied: \<^verbatim>\<open>chain\<close> creates a chain on
  the evaluator's transaction with dispatching disabled; a property that is no function of
  the raw-command table is \<^verbatim>\<open>alwaysReturnFalse\<close>; any other runs the command inside
  \<^verbatim>\<open>try\<close>.
\<close>

datatype can_result = CanBool bool | CanChain chain_state

definition can_get ::
  "'st runner \<Rightarrow> 'st manager \<Rightarrow> string \<Rightarrow> jsval list \<Rightarrow> 'st exec_state
    \<Rightarrow> (error + can_result) \<times> 'st exec_state" where
  "can_get ex m prop args st =
     (let dispatch = False; props = buildProps dispatch in
      if prop = ''chain''
      then (case createChain m (Some (tr st)) dispatch st of (c, st') \<Rightarrow> (Inr (CanChain c), st'))
      else
        case rawCommands m prop of
          None \<Rightarrow> (Inr (CanBool (alwaysReturnFalse args)), st)
        | Some command \<Rightarrow>
            (case invoke ex prop command args (props\<lparr>dispatch := False\<rparr>) st of
               (Inr b, st') \<Rightarrow> (Inr (CanBool b), st')
             | (Inl e, st') \<Rightarrow> (Inr (CanBool False), st')))"

text \<open>\<^verbatim>\<open>can.chain().a(..).b(..).run()\<close>\<close>

definition can_chain_run ::
  "'st runner \<Rightarrow> 'st manager \<Rightarrow> call list \<Rightarrow> 'st exec_state
    \<Rightarrow> (error + bool) \<times> 'st exec_state" where
  "can_chain_run ex m calls st =
     (case createChain m (Some (tr st)) False st of
        (c, st') \<Rightarrow> chain_run ex m calls c st')"

subsection \<open>Running a command body against its props\<close>

fun exec :: "'st runner \<Rightarrow> 'st manager \<Rightarrow> 'st runner" where
  "exec ex m p (Return b) st = (Inr b, st)"
| "exec ex m p Throw st = (Inl Thrown, st)"
| "exec ex m p (SetMeta k v rest) st = exec ex m p rest (st\<lparr>tr := setMeta (tr st) k v\<rparr>)"
| "exec ex m p (AddStep s rest) st = exec ex m p rest (st\<lparr>tr := addStep (tr st) s\<rparr>)"
| "exec ex m p (IfMeta k a b) st =
     (if truthy (getMeta (tr st) k) then exec ex m p a st else exec ex m p b st)"
| "exec ex m p (IfDispatch a b) st =
     (if dispatch p then exec ex m p a st else exec ex m p b st)"
| "exec ex m p (CallDispatch rest) st =
     (if dispatch p then exec ex m p rest st else (Inl TypeError, st))"
| "exec ex m p (PropsChain calls a b) st =
     (case createChain m (Some (tr st)) (chain_shouldDispatch p) st of
        (c, st0) \<Rightarrow>
          (case chain_run ex m calls c st0 of
             (Inl e, st') \<Rightarrow> (Inl e, st')
           | (Inr ok, st') \<Rightarrow> (if ok then exec ex m p a st' else exec ex m p b st')))"
| "exec ex m p (PropsCan pa a b) st =
     (case can_get ex m (fst pa) (snd pa) (createCan m (Some (tr st)) st) of
        (Inl e, st') \<Rightarrow> (Inl e, st')
      | (Inr (CanChain c), st') \<Rightarrow> exec ex m p a st'
      | (Inr (CanBool ok), st') \<Rightarrow> (if ok then exec ex m p a st' else exec ex m p b st'))"
| "exec ex m p (PropsCanChain calls a b) st =
     (case can_chain_run ex m calls (createCan m (Some (tr st)) st) of
        (Inl e, st') \<Rightarrow> (Inl e, st')
      | (Inr ok, st') \<Rightarrow> (if ok then exec ex m p a st' else exec ex m p b st'))"
| "exec ex m p (PropsCommand pa a b) st =
     (case rawCommands m (fst pa) of
        None \<Rightarrow> (Inl TypeError, st)
      | Some command \<Rightarrow>
          (case invoke ex (fst pa) command (snd pa) (p\<lparr>dispatch := commands_dispatch p\<rparr>) st of
             (Inl e, st') \<Rightarrow> (Inl e, st')
           | (Inr ok, st') \<Rightarrow> (if ok then exec ex m p a st' else exec ex m p b st')))"

text \<open>
  The engine runs a command body on a stack of bounded depth: a raw command invoked with
  no stack left throws a RangeError, as the engine does, and the \<^verbatim>\<open>try\<close> blocks of the
  manager see it like any other exception.
\<close>

primrec run_body :: "nat \<Rightarrow> 'st manager \<Rightarrow> 'st runner" where
  "run_body 0 m = (\<lambda>p b st. (Inl RangeError, st))"
| "run_body (Suc d) m = exec (run_body d m) m"


section \<open>Auxiliary notions\<close>

text \<open>A sequence of chained calls that never names the property \<^verbatim>\<open>run\<close>.\<close>

definition no_run :: "call list \<Rightarrow> bool" where
  "no_run calls = list_all (\<lambda>pa. fst pa \<noteq> ''run'') calls"

text \<open>A way of running command bodies that leaves the view alone.\<close>

definition quiet :: "'st runner \<Rightarrow> bool" where
  "quiet ex = (\<forall>p b st. dispatched (snd (ex p b st)) = dispatched st)"

text \<open>A chain whose \<^verbatim>\<open>run\<close> cannot reach the view.\<close>

definition silent :: "'st manager \<Rightarrow> chain_state \<Rightarrow> bool" where
  "silent m c = (hasStartTransaction c \<or> \<not> shouldDispatch c \<or> hasCustomState m)"

text \<open>
  Props in which dispatching is disabled throughout: \<^verbatim>\<open>dispatch\<close> is undefined, the
  closure \<^verbatim>\<open>chain\<close> captured a false \<^verbatim>\<open>shouldDispatch\<close>, and the getter \<^verbatim>\<open>commands\<close>
  captured props with an undefined \<^verbatim>\<open>dispatch\<close>.
\<close>

definition suppressed :: "props \<Rightarrow> bool" where
  "suppressed p = (\<not> dispatch p \<and> \<not> chain_shouldDispatch p \<and> \<not> commands_dispatch p)"

definition hands_suppressed :: "'st exec_state \<Rightarrow> 'st exec_state \<Rightarrow> bool" where
  "hands_suppressed st st' =
     (\<exists>new. handed st' = handed st @ new \<and> list_all (\<lambda>e. suppressed (snd e)) new)"

definition keeps_suppressed :: "'st runner \<Rightarrow> bool" where
  "keeps_suppressed ex = (\<forall>p b st. suppressed p \<longrightarrow> hands_suppressed st (snd (ex p b st)))"

section \<open>An editor with the commands of the evaluator's tests\<close>

text \<open>
  The commands that the tests of the can evaluator register or call: one that always
  throws, an \<^verbatim>\<open>undo\<close> with nothing to undo, a command in the usual shape (change the
  transaction only when \<^verbatim>\<open>dispatch\<close> is given, and report success), a command that runs
  a nested chain, and one that sets the \<^verbatim>\<open>preventDispatch\<close> meta.
\<close>

definition spec_commands :: "string \<Rightarrow> command option" where
  "spec_commands = map_of
     [(''throwErrorIfCalled'', \<lambda>args. Throw),
      (''undo'', \<lambda>args. Return False),
      (''toggleHeading'', \<lambda>args. IfDispatch (AddStep ''setNode'' (Return True)) (Return True)),
      (''innerCommand'', \<lambda>args. Return True),
      (''outerCommand'', \<lambda>args. PropsChain [(''innerCommand'', [])] (Return True) (Return False)),
      (''blur'', \<lambda>args. SetMeta ''preventDispatch'' (JBool True) (Return True))]"

definition spec_editor :: "nat manager" where
  "spec_editor = \<lparr>editor_state = 0, rawCommands = spec_commands, customState = None\<rparr>"

definition spec_start :: "nat exec_state" where
  "spec_start = \<lparr>tr = state_tr 0, dispatched = [], handed = []\<rparr>"

section \<open>Outcomes and flags along a chain\<close>

lemma chainedCommand_flags:
  "hasStartTransaction (fst (chainedCommand ex m prop args c st)) = hasStartTransaction c"
  "shouldDispatch (fst (chainedCommand ex m prop args c st)) = shouldDispatch c"
  by (auto simp: chainedCommand_def Let_def split: option.splits prod.splits sum.splits)

lemma chainedCommand_pushes:
  "\<exists>x. callbacks (fst (chainedCommand ex m prop args c st)) = callbacks c @ [x]"
  by (auto simp: chainedCommand_def Let_def split: option.splits prod.splits sum.splits)

lemma chain_calls_no_run:
  "no_run calls \<Longrightarrow>
   \<exists>c' ys. fst (chain_calls ex m calls c st) = Inr c'
     \<and> callbacks c' = callbacks c @ ys \<and> length ys = length calls
     \<and> hasStartTransaction c' = hasStartTransaction c
     \<and> shouldDispatch c' = shouldDispatch c"
proof (induction calls arbitrary: c st)
  case Nil
  then show ?case by simp
next
  case (Cons pa rest)
  obtain c1 st1 where step: "chainedCommand ex m (fst pa) (snd pa) c st = (c1, st1)"
    by (cases "chainedCommand ex m (fst pa) (snd pa) c st")
  from Cons.prems have nr: "fst pa \<noteq> ''run''" and rest: "no_run rest"
    by (simp_all add: no_run_def)
  from chainedCommand_pushes [of ex m "fst pa" "snd pa" c st] step
  obtain x where x: "callbacks c1 = callbacks c @ [x]" by auto
  from chainedCommand_flags [of ex m "fst pa" "snd pa" c st] step
  have fl: "hasStartTransaction c1 = hasStartTransaction c" "shouldDispatch c1 = shouldDispatch c"
    by simp_all
  from Cons.IH [OF rest, of c1 st1]
  obtain c' ys where r: "fst (chain_calls ex m rest c1 st1) = Inr c'"
    "callbacks c' = callbacks c1 @ ys" "length ys = length rest"
    "hasStartTransaction c' = hasStartTransaction c1" "shouldDispatch c' = shouldDispatch c1"
    by blast
  have "fst (chain_calls ex m (pa # rest) c st) = Inr c'"
    using nr step r(1) by (simp add: chain_get_def)
  moreover have "callbacks c' = callbacks c @ (x # ys)" using r(2) x by simp
  moreover have "length (x # ys) = length (pa # rest)" using r(3) by simp
  ultimately show ?case using r(4,5) fl by blast
qed

lemma chain_calls_append:
  "chain_calls ex m (xs @ ys) c st =
     (case chain_calls ex m xs c st of
        (Inl e, st') \<Rightarrow> (Inl e, st')
      | (Inr c', st') \<Rightarrow> chain_calls ex m ys c' st')"
  by (induction xs arbitrary: c st) (auto split: prod.splits chain_result.splits sum.splits)

lemma run_result: "fst (run m c st) = (\<forall>cb \<in> set (callbacks c). cb = Callback True)"
  by (simp add: run_def list_all_iff)


section \<open>Nothing below the top level reaches the view\<close>

lemma invoke_quiet:
  "quiet ex \<Longrightarrow> dispatched (snd (invoke ex name command args p st)) = dispatched st"
  by (simp add: quiet_def invoke_def)

lemma chainedCommand_quiet:
  assumes "quiet ex"
  shows "dispatched (snd (chainedCommand ex m prop args c st)) = dispatched st"
proof (cases "rawCommands m prop")
  case None
  then show ?thesis by (simp add: chainedCommand_def)
next
  case (Some cmd)
  from invoke_quiet [OF assms, of "prop" cmd args "buildProps (shouldDispatch c)" st]
  show ?thesis using Some
    by (auto simp: chainedCommand_def Let_def split: prod.splits sum.splits)
qed

lemma run_silent: "silent m c \<Longrightarrow> snd (run m c st) = st"
  by (auto simp: run_def silent_def)

lemma silent_chainedCommand:
  "silent m (fst (chainedCommand ex m prop args c st)) = silent m c"
  by (simp add: silent_def chainedCommand_flags)

lemma chain_calls_quiet:
  "quiet ex \<Longrightarrow> silent m c \<Longrightarrow>
   dispatched (snd (chain_calls ex m calls c st)) = dispatched st
   \<and> (\<forall>c'. fst (chain_calls ex m calls c st) = Inr c' \<longrightarrow> silent m c')"
proof (induction calls arbitrary: c st)
  case Nil
  then show ?case by simp
next
  case (Cons pa rest)
  show ?case
  proof (cases "fst pa = ''run''")
    case True
    then show ?thesis using run_silent [OF Cons.prems(2), of st]
      by (auto simp: chain_get_def split: prod.splits)
  next
    case False
    obtain c1 st1 where step: "chainedCommand ex m (fst pa) (snd pa) c st = (c1, st1)"
      by (cases "chainedCommand ex m (fst pa) (snd pa) c st")
    have d1: "dispatched st1 = dispatched st"
      using chainedCommand_quiet [OF Cons.prems(1), of m "fst pa" "snd pa" c st] step by simp
    have s1: "silent m c1"
      using silent_chainedCommand [of m ex "fst pa" "snd pa" c st] step Cons.prems(2) by simp
    from Cons.IH [OF Cons.prems(1) s1, of st1] d1 False step
    show ?thesis by (simp add: chain_get_def)
  qed
qed

lemma chain_run_quiet:
  assumes "quiet ex" "silent m c"
  shows "dispatched (snd (chain_run ex m calls c st)) = dispatched st"
proof (cases "chain_calls ex m calls c st")
  case (Pair r st')
  with chain_calls_quiet [OF assms, of calls st]
  have d: "dispatched st' = dispatched st" and s: "\<forall>c'. r = Inr c' \<longrightarrow> silent m c'"
    by simp_all
  show ?thesis
  proof (cases r)
    case (Inl e)
    then show ?thesis using Pair d by (simp add: chain_run_def)
  next
    case (Inr c')
    with s have "silent m c'" by simp
    from run_silent [OF this, of st'] show ?thesis using Pair Inr d
      by (simp add: chain_run_def case_prod_beta)
  qed
qed

lemma createChain_start:
  "fst (createChain m (Some t) sd st) = \<lparr>callbacks = [], hasStartTransaction = True, shouldDispatch = sd\<rparr>"
  "snd (createChain m (Some t) sd st) = st\<lparr>tr := t\<rparr>"
  by (simp_all add: createChain_def)

lemma can_chain_run_quiet:
  assumes "quiet ex"
  shows "dispatched (snd (can_chain_run ex m calls st)) = dispatched st"
proof -
  have "silent m (fst (createChain m (Some (tr st)) False st))"
    by (simp add: createChain_start silent_def)
  from chain_run_quiet [OF assms this, of calls "snd (createChain m (Some (tr st)) False st)"]
  show ?thesis by (simp add: can_chain_run_def createChain_start case_prod_beta)
qed

lemma can_get_quiet:
  assumes "quiet ex"
  shows "dispatched (snd (can_get ex m prop args st)) = dispatched st"
proof (cases "rawCommands m prop")
  case None
  then show ?thesis by (simp add: can_get_def createChain_def)
next
  case (Some cmd)
  from invoke_quiet [OF assms, of "prop" cmd args "(buildProps False)\<lparr>dispatch := False\<rparr>" st]
  show ?thesis using Some
    by (auto simp: can_get_def createChain_def Let_def split: prod.splits sum.splits)
qed

lemma exec_quiet_aux:
  assumes q: "quiet ex"
  shows "dispatched (snd (exec ex m p b st)) = dispatched st"
proof (induction b arbitrary: st)
  case (PropsChain calls b1 b2)
  have sil: "silent m (fst (createChain m (Some (tr st)) (chain_shouldDispatch p) st))"
    by (simp add: createChain_start silent_def)
  from chain_run_quiet [OF q sil, of calls "snd (createChain m (Some (tr st)) (chain_shouldDispatch p) st)"]
  have "dispatched (snd (chain_run ex m calls (fst (createChain m (Some (tr st)) (chain_shouldDispatch p) st))
          (snd (createChain m (Some (tr st)) (chain_shouldDispatch p) st)))) = dispatched st"
    by (simp add: createChain_start)
  then show ?case using PropsChain.IH
    by (auto split: prod.splits sum.splits)
next
  case (PropsCan pa b1 b2)
  from can_get_quiet [OF q, of m "fst pa" "snd pa" "createCan m (Some (tr st)) st"]
  have "dispatched (snd (can_get ex m (fst pa) (snd pa) (createCan m (Some (tr st)) st))) = dispatched st"
    by (simp add: createCan_def)
  then show ?case using PropsCan.IH
    by (auto split: prod.splits sum.splits can_result.splits)
next
  case (PropsCanChain calls b1 b2)
  from can_chain_run_quiet [OF q, of m calls "createCan m (Some (tr st)) st"]
  have "dispatched (snd (can_chain_run ex m calls (createCan m (Some (tr st)) st))) = dispatched st"
    by (simp add: createCan_def)
  then show ?case using PropsCanChain.IH
    by (auto split: prod.splits sum.splits)
next
  case (PropsCommand pa b1 b2)
  show ?case
  proof (cases "rawCommands m (fst pa)")
    case None
    then show ?thesis by simp
  next
    case (Some cmd)
    from invoke_quiet [OF q, of "fst pa" cmd "snd pa" "p\<lparr>dispatch := commands_dispatch p\<rparr>" st]
    show ?thesis using Some PropsCommand.IH
      by (auto split: prod.splits sum.splits)
  qed
qed simp_all

lemma exec_quiet: "quiet ex \<Longrightarrow> quiet (exec ex m)"
  using exec_quiet_aux [of ex m] by (simp add: quiet_def)

lemma run_body_quiet: "quiet (run_body d m)"
  by (induction d) (simp_all add: quiet_def exec_quiet [unfolded quiet_def])


section \<open>Suppressed dispatch is handed down\<close>

lemma hs_same: "handed st' = handed st \<Longrightarrow> hands_suppressed st st'"
  by (simp add: hands_suppressed_def)

lemma hs_trans:
  "hands_suppressed st st' \<Longrightarrow> hands_suppressed st' st'' \<Longrightarrow> hands_suppressed st st''"
  by (auto simp: hands_suppressed_def)

lemma hs_handed_cong:
  "handed st0 = handed st \<Longrightarrow> hands_suppressed st0 st' \<Longrightarrow> hands_suppressed st st'"
  by (simp add: hands_suppressed_def)

lemma invoke_hs:
  assumes "keeps_suppressed ex" "suppressed p"
  shows "hands_suppressed st (snd (invoke ex name cmd args p st))"
proof -
  let ?stm = "st\<lparr>handed := handed st @ [(name, p)]\<rparr>"
  have "hands_suppressed st ?stm"
    using assms(2) by (simp add: hands_suppressed_def)
  moreover have "hands_suppressed ?stm (snd (ex p (cmd args) ?stm))"
    using assms by (simp add: keeps_suppressed_def)
  ultimately show ?thesis
    unfolding invoke_def by (rule hs_trans)
qed

lemma suppressed_buildProps: "suppressed (buildProps False)"
  by (simp add: suppressed_def buildProps_def)

lemma chainedCommand_hs:
  assumes "keeps_suppressed ex" "\<not> shouldDispatch c"
  shows "hands_suppressed st (snd (chainedCommand ex m prop args c st))"
proof (cases "rawCommands m prop")
  case None
  then show ?thesis by (simp add: chainedCommand_def hs_same)
next
  case (Some cmd)
  from invoke_hs [OF assms(1) suppressed_buildProps, of st "prop" cmd args]
  show ?thesis using Some assms(2)
    by (auto simp: chainedCommand_def Let_def split: prod.splits sum.splits)
qed

lemma run_handed: "handed (snd (run m c st)) = handed st"
  by (simp add: run_def view_dispatch_def)

lemma chain_calls_hs:
  "keeps_suppressed ex \<Longrightarrow> \<not> shouldDispatch c \<Longrightarrow>
   hands_suppressed st (snd (chain_calls ex m calls c st))"
proof (induction calls arbitrary: c st)
  case Nil
  then show ?case by (simp add: hs_same)
next
  case (Cons pa rest)
  show ?case
  proof (cases "fst pa = ''run''")
    case True
    then show ?thesis using run_handed [of m c st]
      by (simp add: chain_get_def case_prod_beta hs_same)
  next
    case False
    obtain c1 st1 where step: "chainedCommand ex m (fst pa) (snd pa) c st = (c1, st1)"
      by (cases "chainedCommand ex m (fst pa) (snd pa) c st")
    have h1: "hands_suppressed st st1"
      using chainedCommand_hs [OF Cons.prems, of st m "fst pa" "snd pa"] step by simp
    have s1: "\<not> shouldDispatch c1"
      using chainedCommand_flags(2) [of ex m "fst pa" "snd pa" c st] step Cons.prems(2) by simp
    from hs_trans [OF h1 Cons.IH [OF Cons.prems(1) s1, of st1]] False step
    show ?thesis by (simp add: chain_get_def)
  qed
qed

lemma chain_run_hs:
  assumes "keeps_suppressed ex" "\<not> shouldDispatch c"
  shows "hands_suppressed st (snd (chain_run ex m calls c st))"
proof -
  have "handed (snd (chain_run ex m calls c st)) = handed (snd (chain_calls ex m calls c st))"
    by (cases "chain_calls ex m calls c st")
       (auto simp: chain_run_def run_handed case_prod_beta split: sum.splits)
  with chain_calls_hs [OF assms, of st m calls] show ?thesis
    by (simp add: hands_suppressed_def)
qed

lemma can_chain_run_hs:
  assumes "keeps_suppressed ex"
  shows "hands_suppressed st (snd (can_chain_run ex m calls st))"
proof -
  have "\<not> shouldDispatch (fst (createChain m (Some (tr st)) False st))"
    by (simp add: createChain_start)
  from chain_run_hs [OF assms this, of "snd (createChain m (Some (tr st)) False st)" m calls]
  show ?thesis
    by (simp add: can_chain_run_def case_prod_beta createChain_start hands_suppressed_def)
qed

lemma can_get_hs:
  assumes "keeps_suppressed ex"
  shows "hands_suppressed st (snd (can_get ex m prop args st))"
proof (cases "rawCommands m prop")
  case None
  then show ?thesis by (simp add: can_get_def createChain_def hs_same)
next
  case (Some cmd)
  have "suppressed ((buildProps False)\<lparr>dispatch := False\<rparr>)"
    by (simp add: suppressed_def buildProps_def)
  from invoke_hs [OF assms this, of st "prop" cmd args]
  show ?thesis using Some
    by (auto simp: can_get_def createChain_def Let_def hs_same split: prod.splits sum.splits)
qed

lemma exec_hs_aux:
  assumes k: "keeps_suppressed ex" and p: "suppressed p"
  shows "hands_suppressed st (snd (exec ex m p b st))"
proof (induction b arbitrary: st)
  case (Return x)
  then show ?case by (simp add: hs_same)
next
  case Throw
  then show ?case by (simp add: hs_same)
next
  case (SetMeta k v b)
  from SetMeta.IH [of "st\<lparr>tr := setMeta (tr st) k v\<rparr>"] show ?case
    by (simp add: hands_suppressed_def)
next
  case (AddStep s b)
  from AddStep.IH [of "st\<lparr>tr := addStep (tr st) s\<rparr>"] show ?case
    by (simp add: hands_suppressed_def)
next
  case (IfMeta k b1 b2)
  then show ?case by simp
next
  case (IfDispatch b1 b2)
  then show ?case by simp
next
  case (CallDispatch b)
  then show ?case by (simp add: hs_same)
next
  case (PropsChain calls b1 b2)
  let ?st0 = "st\<lparr>tr := tr st\<rparr>"
  let ?c = "\<lparr>callbacks = [], hasStartTransaction = True, shouldDispatch = chain_shouldDispatch p\<rparr>"
  have "\<not> shouldDispatch ?c" using p by (simp add: suppressed_def)
  from chain_run_hs [OF k this, of ?st0 m calls]
  have h: "hands_suppressed st (snd (chain_run ex m calls ?c ?st0))"
    by (simp add: hands_suppressed_def)
  show ?case
  proof (cases "chain_run ex m calls ?c ?st0")
    case (Pair r st')
    with h have h': "hands_suppressed st st'" by simp
    show ?thesis
      using Pair h' hs_trans [OF h' PropsChain.IH(1) [of st']] hs_trans [OF h' PropsChain.IH(2) [of st']]
      by (cases r) (simp_all add: createChain_def)
  qed
next
  case (PropsCan pa b1 b2)
  let ?st0 = "createCan m (Some (tr st)) st"
  from can_get_hs [OF k, of ?st0 m "fst pa" "snd pa"]
  have h: "hands_suppressed st (snd (can_get ex m (fst pa) (snd pa) ?st0))"
    by (simp add: hands_suppressed_def createCan_def)
  show ?case
  proof (cases "can_get ex m (fst pa) (snd pa) ?st0")
    case (Pair r st')
    with h have h': "hands_suppressed st st'" by simp
    show ?thesis
      using Pair h' hs_trans [OF h' PropsCan.IH(1) [of st']] hs_trans [OF h' PropsCan.IH(2) [of st']]
      by (cases r) (simp_all split: can_result.splits)
  qed
next
  case (PropsCanChain calls b1 b2)
  let ?st0 = "createCan m (Some (tr st)) st"
  from can_chain_run_hs [OF k, of ?st0 m calls]
  have h: "hands_suppressed st (snd (can_chain_run ex m calls ?st0))"
    by (simp add: hands_suppressed_def createCan_def)
  show ?case
  proof (cases "can_chain_run ex m calls ?st0")
    case (Pair r st')
    with h have h': "hands_suppressed st st'" by simp
    show ?thesis
      using Pair h' hs_trans [OF h' PropsCanChain.IH(1) [of st']]
        hs_trans [OF h' PropsCanChain.IH(2) [of st']]
      by (cases r) simp_all
  qed
next
  case (PropsCommand pa b1 b2)
  show ?case
  proof (cases "rawCommands m (fst pa)")
    case None
    then show ?thesis by (simp add: hs_same)
  next
    case (Some cmd)
    have "suppressed (p\<lparr>dispatch := commands_dispatch p\<rparr>)"
      using p by (simp add: suppressed_def)
    from invoke_hs [OF k this, of st "fst pa" cmd "snd pa"]
    have h: "hands_suppressed st (snd (invoke ex (fst pa) cmd (snd pa) (p\<lparr>dispatch := commands_dispatch p\<rparr>) st))" .
    show ?thesis
    proof (cases "invoke ex (fst pa) cmd (snd pa) (p\<lparr>dispatch := commands_dispatch p\<rparr>) st")
      case (Pair r st')
      with h have h': "hands_suppressed st st'" by simp
      show ?thesis
        using Some Pair h' hs_trans [OF h' PropsCommand.IH(1) [of st']]
          hs_trans [OF h' PropsCommand.IH(2) [of st']]
        by (cases r) simp_all
    qed
  qed
qed

lemma exec_hs: "keeps_suppressed ex \<Longrightarrow> keeps_suppressed (exec ex m)"
  using exec_hs_aux [of ex _ _ m] by (simp add: keeps_suppressed_def)

lemma run_body_hs: "keeps_suppressed (run_body d m)"
proof (induction d)
  case 0
  show ?case by (simp add: keeps_suppressed_def hs_same)
next
  case (Suc d)
  then show ?case by (simp add: exec_hs)
qed

lemma chain_calls_flags:
  "chain_calls ex m calls c st = (Inr c', st') \<Longrightarrow>
   hasStartTransaction c' = hasStartTransaction c \<and> shouldDispatch c' = shouldDispatch c"
proof (induction calls arbitrary: c st)
  case Nil
  then show ?case by simp
next
  case (Cons pa rest)
  show ?case
  proof (cases "fst pa = ''run''")
    case True
    with Cons.prems show ?thesis by (simp add: chain_get_def case_prod_beta)
  next
    case False
    obtain c1 st1 where step: "chainedCommand ex m (fst pa) (snd pa) c st = (c1, st1)"
      by (cases "chainedCommand ex m (fst pa) (snd pa) c st")
    with Cons.prems False have "chain_calls ex m rest c1 st1 = (Inr c', st')"
      by (simp add: chain_get_def)
    from Cons.IH [OF this] chainedCommand_flags [of ex m "fst pa" "snd pa" c st] step
    show ?thesis by simp
  qed
qed

lemma view_dispatch_neq: "view_dispatch st \<noteq> st"
proof
  assume "view_dispatch st = st"
  then have "dispatched (view_dispatch st) = dispatched st" by simp
  then show False by (simp add: view_dispatch_def)
qed

section \<open>What a chained command records\<close>

lemma chainedCommand_not_found:
  "rawCommands m prop = None \<Longrightarrow>
   chainedCommand ex m prop args c st = (c\<lparr>callbacks := callbacks c @ [CommandNotFound]\<rparr>, st)"
  by (simp add: chainedCommand_def)

lemma chainedCommand_threw:
  "rawCommands m prop = Some cmd \<Longrightarrow>
   invoke ex prop cmd args (buildProps (shouldDispatch c)) st = (Inl e, st') \<Longrightarrow>
   chainedCommand ex m prop args c st = (c\<lparr>callbacks := callbacks c @ [CommandError]\<rparr>, st')"
  by (simp add: chainedCommand_def)

lemma chainedCommand_returned:
  "rawCommands m prop = Some cmd \<Longrightarrow>
   invoke ex prop cmd args (buildProps (shouldDispatch c)) st = (Inr b, st') \<Longrightarrow>
   chainedCommand ex m prop args c st = (c\<lparr>callbacks := callbacks c @ [Callback b]\<rparr>, st')"
  by (simp add: chainedCommand_def)

lemma chain_run_no_run:
  assumes "no_run calls"
  shows "\<exists>c'. fst (chain_calls ex m calls c st) = Inr c'
    \<and> fst (chain_run ex m calls c st) = Inr (\<forall>cb \<in> set (callbacks c'). cb = Callback True)"
proof -
  from chain_calls_no_run [OF assms, of ex m c st]
  obtain c' where c': "fst (chain_calls ex m calls c st) = Inr c'" by blast
  then have "fst (chain_run ex m calls c st) = Inr (fst (run m c' (snd (chain_calls ex m calls c st))))"
    by (cases "chain_calls ex m calls c st") (simp add: chain_run_def case_prod_beta)
  with c' show ?thesis by (simp add: run_result)
qed

lemma chain_run_failed_outcome:
  assumes pre: "no_run pre" and post: "no_run post" and nr: "fst pa \<noteq> ''run''"
    and c1: "chain_calls ex m pre c0 st0 = (Inr c1, st1)"
    and x: "callbacks (fst (chainedCommand ex m (fst pa) (snd pa) c1 st1)) = callbacks c1 @ [x]"
    and bad: "x \<noteq> Callback True"
  shows "fst (chain_run ex m (pre @ pa # post) c0 st0) = Inr False"
proof -
  obtain c2 st2 where step: "chainedCommand ex m (fst pa) (snd pa) c1 st1 = (c2, st2)"
    by (cases "chainedCommand ex m (fst pa) (snd pa) c1 st1")
  with x have c2: "callbacks c2 = callbacks c1 @ [x]" by simp
  from chain_calls_no_run [OF post, of ex m c2 st2]
  obtain c3 ys where c3: "fst (chain_calls ex m post c2 st2) = Inr c3"
    and cb3: "callbacks c3 = callbacks c2 @ ys" by blast
  have all: "no_run (pre @ pa # post)"
    using pre post nr by (simp add: no_run_def)
  have "chain_calls ex m (pre @ pa # post) c0 st0 = chain_calls ex m post c2 st2"
    using c1 step nr by (simp add: chain_calls_append chain_get_def)
  with c3 have "fst (chain_calls ex m (pre @ pa # post) c0 st0) = Inr c3" by simp
  with chain_run_no_run [OF all, of ex m c0 st0]
  have "fst (chain_run ex m (pre @ pa # post) c0 st0)
          = Inr (\<forall>cb \<in> set (callbacks c3). cb = Callback True)" by auto
  moreover have "x \<in> set (callbacks c3)" using cb3 c2 by simp
  ultimately show ?thesis using bad by auto
qed

text \<open>The definitions that evaluate the manager on the editor of the tests.\<close>

lemmas spec_defs =
  spec_editor_def spec_commands_def spec_start_def state_tr_def
  can_get_def can_chain_run_def chain_run_def chain_get_def chainedCommand_def run_def
  createChain_def createCan_def invoke_def buildProps_def commands_method_def commands_def
  view_dispatch_def getMeta_def setMeta_def addStep_def hasCustomState_def state_def
  alwaysReturnFalse_def no_run_def

section \<open>The can evaluator and throwing commands\<close>

text \<open>
  C1. A registered command whose execution throws gives \<^verbatim>\<open>false\<close> through the can
  evaluator, with no exception; and a chain built from the evaluator that contains such a
  command gives \<^verbatim>\<open>false\<close> from \<^verbatim>\<open>run()\<close>, with no exception, whatever commands come
  before or after it.
\<close>

theorem can_throwing_command_yields_false:
  assumes reg: "rawCommands m prop = Some cmd"
    and names: "prop \<noteq> ''chain''" "prop \<noteq> ''run''" "no_run pre" "no_run post"
  shows "(fst (invoke (run_body d m) prop cmd args ((buildProps False)\<lparr>dispatch := False\<rparr>) st) = Inl e
            \<longrightarrow> fst (can_get (run_body d m) m prop args st) = Inr (CanBool False))
       \<and> (createChain m (Some (tr st)) False st = (c0, st0)
            \<and> chain_calls (run_body d m) m pre c0 st0 = (Inr c1, st1)
            \<and> fst (invoke (run_body d m) prop cmd args (buildProps False) st1) = Inl e
            \<longrightarrow> fst (can_chain_run (run_body d m) m (pre @ (prop, args) # post) st) = Inr False)"
proof (intro conjI impI)
  assume "fst (invoke (run_body d m) prop cmd args ((buildProps False)\<lparr>dispatch := False\<rparr>) st) = Inl e"
  then show "fst (can_get (run_body d m) m prop args st) = Inr (CanBool False)"
    using reg names(1) by (auto simp: can_get_def Let_def split: prod.splits sum.splits)
next
  assume a: "createChain m (Some (tr st)) False st = (c0, st0)
    \<and> chain_calls (run_body d m) m pre c0 st0 = (Inr c1, st1)
    \<and> fst (invoke (run_body d m) prop cmd args (buildProps False) st1) = Inl e"
  then have c0: "\<not> shouldDispatch c0" by (auto simp: createChain_def)
  from chain_calls_no_run [OF names(3), of "run_body d m" m c0 st0] a
  have sd1: "\<not> shouldDispatch c1" using c0 by auto
  obtain st' where inv: "invoke (run_body d m) prop cmd args (buildProps (shouldDispatch c1)) st1 = (Inl e, st')"
    using a sd1 by (cases "invoke (run_body d m) prop cmd args (buildProps False) st1") auto
  have "callbacks (fst (chainedCommand (run_body d m) m prop args c1 st1)) = callbacks c1 @ [CommandError]"
    using chainedCommand_threw [OF reg inv] by simp
  from chain_run_failed_outcome [of pre post "(prop, args)" "run_body d m" m c0 st0 c1 st1 CommandError]
    names a this
  have "fst (chain_run (run_body d m) m (pre @ (prop, args) # post) c0 st0) = Inr False" by simp
  then show "fst (can_chain_run (run_body d m) m (pre @ (prop, args) # post) st) = Inr False"
    using a by (simp add: can_chain_run_def)
qed

theorem can_throwing_command_yields_false_witness:
  "fst (can_get (run_body 1 spec_editor) spec_editor ''throwErrorIfCalled'' [] spec_start)
     = Inr (CanBool False)
   \<and> fst (can_chain_run (run_body 1 spec_editor) spec_editor
        ([(''undo'', [])] @ (''throwErrorIfCalled'', []) # [(''toggleHeading'', [JNum 1])])
        spec_start) = Inr False"
proof -
  let ?init = "\<lparr>callbacks = [], hasStartTransaction = True, shouldDispatch = False\<rparr>"
  let ?mid = "\<lparr>callbacks = [Callback False], hasStartTransaction = True, shouldDispatch = False\<rparr>"
  let ?stm = "spec_start\<lparr>handed := [(''undo'', buildProps False)]\<rparr>"
  have reg: "rawCommands spec_editor ''throwErrorIfCalled'' = Some (\<lambda>args. Throw)"
    by (simp add: spec_editor_def spec_commands_def)
  have names: "''throwErrorIfCalled'' \<noteq> ''chain''" "''throwErrorIfCalled'' \<noteq> ''run''"
    "no_run [(''undo'', [])]" "no_run [(''toggleHeading'', [JNum 1])]"
    by (simp_all add: no_run_def)
  have t1: "fst (invoke (run_body 1 spec_editor) ''throwErrorIfCalled'' (\<lambda>args. Throw) []
      ((buildProps False)\<lparr>dispatch := False\<rparr>) spec_start) = Inl Thrown"
    by (simp add: invoke_def)
  have t2: "createChain spec_editor (Some (tr spec_start)) False spec_start = (?init, spec_start)"
    by (simp add: createChain_def spec_start_def)
  have t3: "chain_calls (run_body 1 spec_editor) spec_editor [(''undo'', [])] ?init spec_start
      = (Inr ?mid, ?stm)"
    by (simp add: spec_defs)
  have t4: "fst (invoke (run_body 1 spec_editor) ''throwErrorIfCalled'' (\<lambda>args. Throw) []
      (buildProps False) ?stm) = Inl Thrown"
    by (simp add: invoke_def)
  from can_throwing_command_yields_false [OF reg names, of 1 "[]" spec_start Thrown ?init spec_start ?mid ?stm]
    t1 t2 t3 t4
  show ?thesis by simp
qed

section \<open>Throwing commands at the call sites\<close>

text \<open>
  The methods of the \<^verbatim>\<open>commands\<close> getter run the command with no \<^verbatim>\<open>try\<close> around it:
  an exception of the command is the result of the call, and the view is not reached.
\<close>

lemma commands_method_no_catch:
  "rawCommands m name = Some cmd \<Longrightarrow>
   invoke ex name cmd args (buildProps True) st = (Inl e, st') \<Longrightarrow>
   commands_method ex m name args st = (Inl e, st')"
  by (simp add: commands_method_def)

text \<open>
  C2, as the code has it at the chain builder and the can evaluator. A registered command
  whose execution throws is caught by the can evaluator, whose call gives \<^verbatim>\<open>false\<close>, and by
  the chain builder, whose call records \<^verbatim>\<open>commandError\<close> and gives the chain back, so that
  \<^verbatim>\<open>run()\<close> on it gives \<^verbatim>\<open>false\<close> and dispatches nothing.
\<close>

theorem throwing_command_at_each_call_site:
  assumes reg: "rawCommands m prop = Some cmd"
    and names: "prop \<noteq> ''chain''" "prop \<noteq> ''run''"
  shows "(fst (invoke (run_body d m) prop cmd args ((buildProps False)\<lparr>dispatch := False\<rparr>) st) = Inl e
            \<longrightarrow> fst (can_get (run_body d m) m prop args st) = Inr (CanBool False))
       \<and> (invoke (run_body d m) prop cmd args (buildProps (shouldDispatch c)) st = (Inl e, st')
            \<longrightarrow> chain_get (run_body d m) m prop args c st
                  = (Chained (c\<lparr>callbacks := callbacks c @ [CommandError]\<rparr>), st')
              \<and> run m (c\<lparr>callbacks := callbacks c @ [CommandError]\<rparr>) st'' = (False, st''))"
proof (intro conjI impI)
  assume "fst (invoke (run_body d m) prop cmd args ((buildProps False)\<lparr>dispatch := False\<rparr>) st) = Inl e"
  then show "fst (can_get (run_body d m) m prop args st) = Inr (CanBool False)"
    using reg names(1) by (auto simp: can_get_def Let_def split: prod.splits sum.splits)
next
  assume "invoke (run_body d m) prop cmd args (buildProps (shouldDispatch c)) st = (Inl e, st')"
  from chainedCommand_threw [OF reg this]
  show "chain_get (run_body d m) m prop args c st
          = (Chained (c\<lparr>callbacks := callbacks c @ [CommandError]\<rparr>), st')"
    using names(2) by (simp add: chain_get_def)
next
  show "run m (c\<lparr>callbacks := callbacks c @ [CommandError]\<rparr>) st'' = (False, st'')"
    by (simp add: run_def)
qed

theorem throwing_command_at_each_call_site_witness:
  "fst (can_get (run_body 1 spec_editor) spec_editor ''throwErrorIfCalled'' [] spec_start)
     = Inr (CanBool False)
   \<and> chain_get (run_body 1 spec_editor) spec_editor ''throwErrorIfCalled'' []
       \<lparr>callbacks = [], hasStartTransaction = False, shouldDispatch = True\<rparr> spec_start
     = (Chained \<lparr>callbacks = [CommandError], hasStartTransaction = False, shouldDispatch = True\<rparr>,
        spec_start\<lparr>handed := [(''throwErrorIfCalled'', buildProps True)]\<rparr>)
   \<and> run spec_editor \<lparr>callbacks = [CommandError], hasStartTransaction = False, shouldDispatch = True\<rparr>
       spec_start = (False, spec_start)"
proof -
  let ?c = "\<lparr>callbacks = [], hasStartTransaction = False, shouldDispatch = True\<rparr>"
  let ?st' = "spec_start\<lparr>handed := [(''throwErrorIfCalled'', buildProps True)]\<rparr>"
  have reg: "rawCommands spec_editor ''throwErrorIfCalled'' = Some (\<lambda>args. Throw)"
    by (simp add: spec_editor_def spec_commands_def)
  have names: "''throwErrorIfCalled'' \<noteq> ''chain''" "''throwErrorIfCalled'' \<noteq> ''run''"
    by simp_all
  have t1: "fst (invoke (run_body 1 spec_editor) ''throwErrorIfCalled'' (\<lambda>args. Throw) []
      ((buildProps False)\<lparr>dispatch := False\<rparr>) spec_start) = Inl Thrown"
    by (simp add: invoke_def)
  have t2: "invoke (run_body 1 spec_editor) ''throwErrorIfCalled'' (\<lambda>args. Throw) []
      (buildProps (shouldDispatch ?c)) spec_start = (Inl Thrown, ?st')"
    by (simp add: invoke_def spec_start_def)
  from throwing_command_at_each_call_site
    [OF reg names, of 1 "[]" spec_start Thrown ?c ?st' spec_start] t1 t2
  show ?thesis by simp
qed

text \<open>
  C2, as the claim states it, fails at the \<^verbatim>\<open>commands\<close> getter: the method of the throwing
  command of the tests ends in the exception, not in \<^verbatim>\<open>false\<close>.
\<close>

theorem single_command_propagates_exception:
  "fst (commands_method (run_body 1 spec_editor) spec_editor ''throwErrorIfCalled'' []
         (commands spec_editor spec_start)) = Inl Thrown
   \<and> fst (commands_method (run_body 1 spec_editor) spec_editor ''throwErrorIfCalled'' []
         (commands spec_editor spec_start)) \<noteq> Inr False"
  by (simp add: spec_defs)

section \<open>When run forwards the transaction\<close>

text \<open>
  C3. On a chain made by \<^verbatim>\<open>createChain\<close> and carried through any chained calls,
  \<^verbatim>\<open>run()\<close> hands the transaction to the view's \<^verbatim>\<open>dispatch\<close> exactly when the chain was
  created without a start transaction and with dispatching enabled, the transaction's
  \<^verbatim>\<open>preventDispatch\<close> meta is not set (reads as falsy), the manager has no custom state,
  and neither \<^verbatim>\<open>commandError\<close> nor \<^verbatim>\<open>commandNotFound\<close> was recorded; otherwise it leaves
  the view alone. A recorded \<^verbatim>\<open>false\<close> does not stand in the way.
\<close>

theorem run_forwards_exactly_when:
  assumes created: "createChain m startTr sd st0 = (c0, st1)"
    and called: "chain_calls (run_body d m) m calls c0 st1 = (Inr c, st)"
  shows "((snd (run m c st) = view_dispatch st) =
            (startTr = None \<and> sd
             \<and> \<not> truthy (getMeta (tr st) ''preventDispatch'')
             \<and> \<not> hasCustomState m
             \<and> CommandError \<notin> set (callbacks c)
             \<and> CommandNotFound \<notin> set (callbacks c)))
       \<and> (snd (run m c st) \<noteq> view_dispatch st \<longrightarrow> snd (run m c st) = st)
       \<and> dispatched (view_dispatch st) = dispatched st @ [tr st]
       \<and> (startTr = None \<and> sd
             \<and> \<not> truthy (getMeta (tr st) ''preventDispatch'')
             \<and> \<not> hasCustomState m
             \<and> set (callbacks c) \<subseteq> {Callback True, Callback False}
           \<longrightarrow> snd (run m c st) = view_dispatch st)"
proof -
  from created have "hasStartTransaction c0 = (startTr \<noteq> None)" "shouldDispatch c0 = sd"
    by (auto simp: createChain_def)
  with chain_calls_flags [OF called]
  have fl: "hasStartTransaction c = (startTr \<noteq> None)" "shouldDispatch c = sd"
    by simp_all
  have neq: "view_dispatch st \<noteq> st" by (rule view_dispatch_neq)
  have 1: "(snd (run m c st) = view_dispatch st) =
            (startTr = None \<and> sd
             \<and> \<not> truthy (getMeta (tr st) ''preventDispatch'')
             \<and> \<not> hasCustomState m
             \<and> CommandError \<notin> set (callbacks c)
             \<and> CommandNotFound \<notin> set (callbacks c))"
    using fl neq [symmetric] by (auto simp: run_def)
  have 2: "snd (run m c st) \<noteq> view_dispatch st \<longrightarrow> snd (run m c st) = st"
    by (simp add: run_def)
  have 3: "dispatched (view_dispatch st) = dispatched st @ [tr st]"
    by (simp add: view_dispatch_def)
  have 4: "startTr = None \<and> sd
             \<and> \<not> truthy (getMeta (tr st) ''preventDispatch'')
             \<and> \<not> hasCustomState m
             \<and> set (callbacks c) \<subseteq> {Callback True, Callback False}
           \<longrightarrow> snd (run m c st) = view_dispatch st"
    using 1 by auto
  from 1 2 3 4 show ?thesis by blast
qed


theorem run_forwards_exactly_when_witness:
  "createChain spec_editor None True spec_start
     = (\<lparr>callbacks = [], hasStartTransaction = False, shouldDispatch = True\<rparr>, spec_start)
   \<and> chain_calls (run_body 1 spec_editor) spec_editor [(''undo'', [])]
       \<lparr>callbacks = [], hasStartTransaction = False, shouldDispatch = True\<rparr> spec_start
     = (Inr \<lparr>callbacks = [Callback False], hasStartTransaction = False, shouldDispatch = True\<rparr>,
        spec_start\<lparr>handed := [(''undo'', buildProps True)]\<rparr>)
   \<and> dispatched (snd (run spec_editor
        \<lparr>callbacks = [Callback False], hasStartTransaction = False, shouldDispatch = True\<rparr>
        (spec_start\<lparr>handed := [(''undo'', buildProps True)]\<rparr>))) = [state_tr 0]"
proof -
  let ?init = "\<lparr>callbacks = [], hasStartTransaction = False, shouldDispatch = True\<rparr>"
  let ?c = "\<lparr>callbacks = [Callback False], hasStartTransaction = False, shouldDispatch = True\<rparr>"
  let ?st = "spec_start\<lparr>handed := [(''undo'', buildProps True)]\<rparr>"
  have created: "createChain spec_editor None True spec_start = (?init, spec_start)"
    by (simp add: spec_defs)
  have called: "chain_calls (run_body 1 spec_editor) spec_editor [(''undo'', [])] ?init spec_start
      = (Inr ?c, ?st)"
    by (simp add: spec_defs)
  have side: "\<not> truthy (getMeta (tr ?st) ''preventDispatch'')" "\<not> hasCustomState spec_editor"
    "set (callbacks ?c) \<subseteq> {Callback True, Callback False}"
    by (simp_all add: spec_defs)
  from run_forwards_exactly_when [OF created called] side
  have "snd (run spec_editor ?c ?st) = view_dispatch ?st" by simp
  then show ?thesis using created called by (simp add: view_dispatch_def spec_start_def)
qed

section \<open>The result of run\<close>

text \<open>
  C4. \<^verbatim>\<open>run()\<close> gives \<^verbatim>\<open>true\<close> exactly when every recorded outcome is the boolean
  \<^verbatim>\<open>true\<close>. So a chain with a command that gave \<^verbatim>\<open>false\<close>, threw, or is no function of
  the raw-command table gives \<^verbatim>\<open>false\<close> from \<^verbatim>\<open>run()\<close>, with no exception, whatever
  commands come before or after it.
\<close>

theorem run_true_iff_all_true:
  assumes names: "no_run pre" "no_run post" "prop \<noteq> ''run''"
    and before: "chain_calls (run_body d m) m pre c0 st0 = (Inr c1, st1)"
    and failing: "rawCommands m prop = None
       \<or> (\<exists>cmd. rawCommands m prop = Some cmd
            \<and> fst (invoke (run_body d m) prop cmd args (buildProps (shouldDispatch c1)) st1)
                \<noteq> Inr True)"
  shows "fst (run m c st) = (\<forall>cb \<in> set (callbacks c). cb = Callback True)
       \<and> fst (chain_run (run_body d m) m (pre @ (prop, args) # post) c0 st0) = Inr False"
proof -
  have "\<exists>x. callbacks (fst (chainedCommand (run_body d m) m prop args c1 st1)) = callbacks c1 @ [x]
          \<and> x \<noteq> Callback True"
  proof (cases "rawCommands m prop")
    case None
    from chainedCommand_not_found [OF this] show ?thesis by simp
  next
    case (Some cmd)
    with failing have ne:
      "fst (invoke (run_body d m) prop cmd args (buildProps (shouldDispatch c1)) st1) \<noteq> Inr True"
      by simp
    obtain r st' where inv:
      "invoke (run_body d m) prop cmd args (buildProps (shouldDispatch c1)) st1 = (r, st')"
      by (cases "invoke (run_body d m) prop cmd args (buildProps (shouldDispatch c1)) st1")
    show ?thesis
    proof (cases r)
      case (Inl e)
      from chainedCommand_threw [OF Some inv [unfolded Inl]] show ?thesis by simp
    next
      case (Inr b)
      with ne inv have "b \<noteq> True" by simp
      with chainedCommand_returned [OF Some inv [unfolded Inr]] show ?thesis by simp
    qed
  qed
  then obtain x where
    "callbacks (fst (chainedCommand (run_body d m) m prop args c1 st1)) = callbacks c1 @ [x]"
    "x \<noteq> Callback True" by blast
  with chain_run_failed_outcome [of pre post "(prop, args)" "run_body d m" m c0 st0 c1 st1 x]
    names before
  have "fst (chain_run (run_body d m) m (pre @ (prop, args) # post) c0 st0) = Inr False"
    by simp
  then show ?thesis by (simp add: run_result)
qed

theorem run_true_iff_all_true_witness:
  "fst (chain_run (run_body 1 spec_editor) spec_editor
         ([(''toggleHeading'', [JNum 1])] @ (''undo'', []) # [(''toggleHeading'', [JNum 2])])
         \<lparr>callbacks = [], hasStartTransaction = False, shouldDispatch = True\<rparr> spec_start)
     = Inr False
   \<and> fst (chain_run (run_body 1 spec_editor) spec_editor
         ([] @ (''unknownCommand'', []) # [(''toggleHeading'', [JNum 2])])
         \<lparr>callbacks = [], hasStartTransaction = False, shouldDispatch = True\<rparr> spec_start)
     = Inr False
   \<and> fst (run spec_editor
         \<lparr>callbacks = [Callback True, Callback True], hasStartTransaction = False, shouldDispatch = True\<rparr>
         spec_start) = True"
proof -
  let ?init = "\<lparr>callbacks = [], hasStartTransaction = False, shouldDispatch = True\<rparr>"
  let ?mid = "\<lparr>callbacks = [Callback True], hasStartTransaction = False, shouldDispatch = True\<rparr>"
  let ?c = "\<lparr>callbacks = [Callback True, Callback True], hasStartTransaction = False, shouldDispatch = True\<rparr>"
  let ?stm = "\<lparr>tr = \<lparr>before = 0::nat, meta = [], steps = [''setNode'']\<rparr>, dispatched = [],
      handed = [(''toggleHeading'', buildProps True)]\<rparr>"
  have names: "no_run [(''toggleHeading'', [JNum 1])]" "no_run [(''toggleHeading'', [JNum 2])]"
    "''undo'' \<noteq> ''run''" "no_run []" "''unknownCommand'' \<noteq> ''run''"
    by (simp_all add: no_run_def)
  have b1: "chain_calls (run_body 1 spec_editor) spec_editor [(''toggleHeading'', [JNum 1])]
      ?init spec_start = (Inr ?mid, ?stm)"
    by (simp add: spec_defs)
  have f1: "rawCommands spec_editor ''undo'' = None
       \<or> (\<exists>cmd. rawCommands spec_editor ''undo'' = Some cmd
            \<and> fst (invoke (run_body 1 spec_editor) ''undo'' cmd [] (buildProps (shouldDispatch ?mid)) ?stm)
                \<noteq> Inr True)"
    by (simp add: spec_editor_def spec_commands_def invoke_def)
  have b2: "chain_calls (run_body 1 spec_editor) spec_editor [] ?init spec_start
      = (Inr ?init, spec_start)"
    by simp
  have f2: "rawCommands spec_editor ''unknownCommand'' = None
       \<or> (\<exists>cmd. rawCommands spec_editor ''unknownCommand'' = Some cmd
            \<and> fst (invoke (run_body 1 spec_editor) ''unknownCommand'' cmd [] (buildProps (shouldDispatch ?init)) spec_start)
                \<noteq> Inr True)"
    by (simp add: spec_editor_def spec_commands_def)
  from run_true_iff_all_true [OF names(1,2,3) b1 f1, of ?c spec_start]
    run_true_iff_all_true [OF names(4,2,5) b2 f2, of ?c spec_start]
  show ?thesis by simp
qed

section \<open>The can evaluator never dispatches\<close>

text \<open>
  C5. Nothing done through the can evaluator reaches the view's \<^verbatim>\<open>dispatch\<close>: creating
  the evaluator, invoking a command through it and running a chain created from it leave
  the dispatched transactions as they were. Every command executed on the way, at any depth
  of nesting, is handed an undefined \<^verbatim>\<open>dispatch\<close>, and the evaluator's chain is created with
  a start transaction and with dispatching disabled.
\<close>

theorem can_never_dispatches:
  "dispatched (createCan m startTr st) = dispatched st
   \<and> dispatched (snd (can_get (run_body d m) m prop args st)) = dispatched st
   \<and> (\<exists>new. handed (snd (can_get (run_body d m) m prop args st)) = handed st @ new
         \<and> (\<forall>e \<in> set new. \<not> dispatch (snd e)))
   \<and> (\<exists>c. can_get (run_body d m) m ''chain'' args st = (Inr (CanChain c), st)
         \<and> hasStartTransaction c \<and> \<not> shouldDispatch c)
   \<and> dispatched (snd (can_chain_run (run_body d m) m calls st)) = dispatched st
   \<and> (\<exists>new. handed (snd (can_chain_run (run_body d m) m calls st)) = handed st @ new
         \<and> (\<forall>e \<in> set new. \<not> dispatch (snd e)))"
proof -
  have 1: "dispatched (createCan m startTr st) = dispatched st"
    by (simp add: createCan_def)
  have 2: "dispatched (snd (can_get (run_body d m) m prop args st)) = dispatched st"
    by (rule can_get_quiet [OF run_body_quiet])
  have 3: "\<exists>new. handed (snd (can_get (run_body d m) m prop args st)) = handed st @ new
         \<and> (\<forall>e \<in> set new. \<not> dispatch (snd e))"
    using can_get_hs [of "run_body d m" st m "prop" args, OF run_body_hs]
    by (auto simp: hands_suppressed_def suppressed_def list_all_iff)
  have 4: "\<exists>c. can_get (run_body d m) m ''chain'' args st = (Inr (CanChain c), st)
         \<and> hasStartTransaction c \<and> \<not> shouldDispatch c"
    by (simp add: can_get_def createChain_def)
  have 5: "dispatched (snd (can_chain_run (run_body d m) m calls st)) = dispatched st"
    by (rule can_chain_run_quiet [OF run_body_quiet])
  have 6: "\<exists>new. handed (snd (can_chain_run (run_body d m) m calls st)) = handed st @ new
         \<and> (\<forall>e \<in> set new. \<not> dispatch (snd e))"
    using can_chain_run_hs [of "run_body d m" st m calls, OF run_body_hs]
    by (auto simp: hands_suppressed_def suppressed_def list_all_iff)
  from 1 2 3 4 5 6 show ?thesis by blast
qed

theorem can_never_dispatches_witness:
  "dispatched (snd (can_get (run_body 1 spec_editor) spec_editor ''toggleHeading'' [JNum 1]
       (createCan spec_editor None spec_start))) = []
   \<and> handed (snd (can_get (run_body 1 spec_editor) spec_editor ''toggleHeading'' [JNum 1]
       (createCan spec_editor None spec_start)))
     = [(''toggleHeading'', \<lparr>dispatch = False, chain_shouldDispatch = False, commands_dispatch = False\<rparr>)]
   \<and> dispatched (snd (can_chain_run (run_body 2 spec_editor) spec_editor
       [(''outerCommand'', []), (''toggleHeading'', [JNum 1])]
       (createCan spec_editor None spec_start))) = []"
proof -
  have "dispatched (createCan spec_editor None spec_start) = []"
    by (simp add: createCan_def spec_start_def)
  moreover have "handed (snd (can_get (run_body 1 spec_editor) spec_editor ''toggleHeading'' [JNum 1]
       (createCan spec_editor None spec_start)))
     = [(''toggleHeading'', \<lparr>dispatch = False, chain_shouldDispatch = False, commands_dispatch = False\<rparr>)]"
    by (simp add: spec_defs)
  ultimately show ?thesis
    using can_never_dispatches [of spec_editor None "createCan spec_editor None spec_start" 1
        "''toggleHeading''" "[JNum 1]" "[]"]
      can_never_dispatches [of spec_editor None "createCan spec_editor None spec_start" 2
        "''toggleHeading''" "[JNum 1]" "[(''outerCommand'', []), (''toggleHeading'', [JNum 1])]"]
    by simp
qed


section \<open>A manager with a custom state\<close>

lemma commands_method_custom:
  assumes "quiet ex" "hasCustomState m"
  shows "dispatched (snd (commands_method ex m name args st)) = dispatched st"
proof (cases "rawCommands m name")
  case None
  then show ?thesis by (simp add: commands_method_def)
next
  case (Some cmd)
  from invoke_quiet [OF assms(1), of name cmd args "buildProps True" st]
  show ?thesis using Some assms(2)
    by (auto simp: commands_method_def Let_def split: prod.splits sum.splits)
qed

text \<open>
  C6. With a substitute state given at construction, the \<^verbatim>\<open>state\<close> getter gives that
  state, and neither a method of the \<^verbatim>\<open>commands\<close> getter nor \<^verbatim>\<open>run()\<close> on any chain,
  alone or after any chained calls, hands a transaction to the view's \<^verbatim>\<open>dispatch\<close>.
\<close>

theorem custom_state_never_dispatches:
  assumes "customState m = Some s"
  shows "state m = s
       \<and> dispatched (snd (commands_method (run_body d m) m name args st)) = dispatched st
       \<and> snd (run m c st) = st
       \<and> dispatched (snd (chain_run (run_body d m) m calls c st)) = dispatched st"
proof -
  from assms have custom: "hasCustomState m" by (simp add: hasCustomState_def)
  then have sil: "silent m c" by (simp add: silent_def)
  have "state m = s" using assms by (simp add: state_def)
  moreover have "dispatched (snd (commands_method (run_body d m) m name args st)) = dispatched st"
    by (rule commands_method_custom [OF run_body_quiet custom])
  moreover have "snd (run m c st) = st" by (rule run_silent [OF sil])
  moreover have "dispatched (snd (chain_run (run_body d m) m calls c st)) = dispatched st"
    by (rule chain_run_quiet [OF run_body_quiet sil])
  ultimately show ?thesis by blast
qed

theorem custom_state_never_dispatches_witness:
  "state (spec_editor\<lparr>customState := Some 5\<rparr>) = 5
   \<and> commands_method (run_body 1 (spec_editor\<lparr>customState := Some 5\<rparr>))
        (spec_editor\<lparr>customState := Some 5\<rparr>) ''toggleHeading'' [JNum 1] spec_start
     = (Inr True,
        \<lparr>tr = \<lparr>before = 0, meta = [], steps = [''setNode'']\<rparr>, dispatched = [],
         handed = [(''toggleHeading'', buildProps True)]\<rparr>)
   \<and> dispatched (snd (chain_run (run_body 1 (spec_editor\<lparr>customState := Some 5\<rparr>))
        (spec_editor\<lparr>customState := Some 5\<rparr>) [(''toggleHeading'', [JNum 1])]
        \<lparr>callbacks = [], hasStartTransaction = False, shouldDispatch = True\<rparr> spec_start)) = []"
proof -
  let ?m = "spec_editor\<lparr>customState := Some 5\<rparr>"
  let ?init = "\<lparr>callbacks = [], hasStartTransaction = False, shouldDispatch = True\<rparr>"
  have custom: "customState ?m = Some 5" by simp
  have "commands_method (run_body 1 ?m) ?m ''toggleHeading'' [JNum 1] spec_start
     = (Inr True,
        \<lparr>tr = \<lparr>before = 0, meta = [], steps = [''setNode'']\<rparr>, dispatched = [],
         handed = [(''toggleHeading'', buildProps True)]\<rparr>)"
    by (simp add: spec_defs)
  moreover have "dispatched spec_start = []" by (simp add: spec_start_def)
  ultimately show ?thesis
    using custom_state_never_dispatches
      [OF custom, of 1 "''toggleHeading''" "[JNum 1]" spec_start ?init "[(''toggleHeading'', [JNum 1])]"]
    by simp
qed

section \<open>The outcomes a chain records\<close>

text \<open>
  C7. A chain starts with no outcome, and each chained command pushes exactly one: the tag
  \<^verbatim>\<open>commandNotFound\<close> exactly when the name is no function of the raw-command table, the
  tag \<^verbatim>\<open>commandError\<close> exactly when the command is there and its execution throws, and
  otherwise the boolean the command returned.
\<close>

theorem chained_command_outcome:
  "callbacks (fst (createChain m startTr sd st0)) = []
   \<and> (\<exists>x. callbacks (fst (chainedCommand (run_body d m) m prop args c st)) = callbacks c @ [x]
        \<and> ((x = CommandNotFound) = (rawCommands m prop = None))
        \<and> ((x = CommandError) =
             (\<exists>cmd e. rawCommands m prop = Some cmd
                \<and> fst (invoke (run_body d m) prop cmd args (buildProps (shouldDispatch c)) st) = Inl e))
        \<and> (\<forall>b. (x = Callback b) =
             (\<exists>cmd. rawCommands m prop = Some cmd
                \<and> fst (invoke (run_body d m) prop cmd args (buildProps (shouldDispatch c)) st) = Inr b)))"
proof
  show "callbacks (fst (createChain m startTr sd st0)) = []"
    by (simp add: createChain_def)
next
  let ?P = "\<lambda>x. callbacks (fst (chainedCommand (run_body d m) m prop args c st)) = callbacks c @ [x]
        \<and> ((x = CommandNotFound) = (rawCommands m prop = None))
        \<and> ((x = CommandError) =
             (\<exists>cmd e. rawCommands m prop = Some cmd
                \<and> fst (invoke (run_body d m) prop cmd args (buildProps (shouldDispatch c)) st) = Inl e))
        \<and> (\<forall>b. (x = Callback b) =
             (\<exists>cmd. rawCommands m prop = Some cmd
                \<and> fst (invoke (run_body d m) prop cmd args (buildProps (shouldDispatch c)) st) = Inr b))"
  show "\<exists>x. ?P x"
  proof (cases "rawCommands m prop")
    case None
    from chainedCommand_not_found [OF this, of "run_body d m" args c st] None
    have "?P CommandNotFound" by simp
    then show ?thesis ..
  next
    case (Some cmd)
    obtain r st' where inv:
      "invoke (run_body d m) prop cmd args (buildProps (shouldDispatch c)) st = (r, st')"
      by (cases "invoke (run_body d m) prop cmd args (buildProps (shouldDispatch c)) st")
    show ?thesis
    proof (cases r)
      case (Inl e)
      from chainedCommand_threw [OF Some inv [unfolded Inl]] Some inv Inl
      have "?P CommandError" by simp
      then show ?thesis ..
    next
      case (Inr b)
      from chainedCommand_returned [OF Some inv [unfolded Inr]] Some inv Inr
      have "?P (Callback b)" by auto
      then show ?thesis ..
    qed
  qed
qed

theorem chained_command_outcome_witness:
  "callbacks (fst (chainedCommand (run_body 1 spec_editor) spec_editor ''unknownCommand'' []
      \<lparr>callbacks = [Callback True], hasStartTransaction = False, shouldDispatch = True\<rparr>
      spec_start)) = [Callback True, CommandNotFound]
   \<and> callbacks (fst (chainedCommand (run_body 1 spec_editor) spec_editor ''throwErrorIfCalled'' []
      \<lparr>callbacks = [Callback True], hasStartTransaction = False, shouldDispatch = True\<rparr>
      spec_start)) = [Callback True, CommandError]
   \<and> callbacks (fst (chainedCommand (run_body 1 spec_editor) spec_editor ''undo'' []
      \<lparr>callbacks = [Callback True], hasStartTransaction = False, shouldDispatch = True\<rparr>
      spec_start)) = [Callback True, Callback False]"
proof -
  let ?c = "\<lparr>callbacks = [Callback True], hasStartTransaction = False, shouldDispatch = True\<rparr>"
  let ?ex = "run_body 1 spec_editor"
  let ?P = "\<lambda>n x.
      callbacks (fst (chainedCommand ?ex spec_editor n [] ?c spec_start)) = callbacks ?c @ [x]
      \<and> ((x = CommandNotFound) = (rawCommands spec_editor n = None))
      \<and> ((x = CommandError) =
           (\<exists>cmd e. rawCommands spec_editor n = Some cmd
              \<and> fst (invoke ?ex n cmd [] (buildProps (shouldDispatch ?c)) spec_start) = Inl e))
      \<and> (\<forall>b. (x = Callback b) =
           (\<exists>cmd. rawCommands spec_editor n = Some cmd
              \<and> fst (invoke ?ex n cmd [] (buildProps (shouldDispatch ?c)) spec_start) = Inr b))"
  have all: "\<exists>x. ?P n x" for n
    by (rule chained_command_outcome
      [of spec_editor None True spec_start 1 n "[]" ?c spec_start, THEN conjunct2])
  from all [of "''unknownCommand''"] obtain x where x: "?P ''unknownCommand'' x" ..
  have "rawCommands spec_editor ''unknownCommand'' = None"
    by (simp add: spec_editor_def spec_commands_def)
  with x have "x = CommandNotFound" by simp
  with x have 1: "callbacks (fst (chainedCommand ?ex spec_editor ''unknownCommand'' [] ?c spec_start))
        = [Callback True, CommandNotFound]" by simp
  from all [of "''throwErrorIfCalled''"] obtain y where y: "?P ''throwErrorIfCalled'' y" ..
  have "\<exists>cmd e. rawCommands spec_editor ''throwErrorIfCalled'' = Some cmd
          \<and> fst (invoke ?ex ''throwErrorIfCalled'' cmd [] (buildProps (shouldDispatch ?c)) spec_start) = Inl e"
    by (simp add: spec_editor_def spec_commands_def invoke_def)
  with y have "y = CommandError" by simp
  with y have 2: "callbacks (fst (chainedCommand ?ex spec_editor ''throwErrorIfCalled'' [] ?c spec_start))
        = [Callback True, CommandError]" by simp
  from all [of "''undo''"] obtain z where z: "?P ''undo'' z" ..
  have "\<exists>cmd. rawCommands spec_editor ''undo'' = Some cmd
          \<and> fst (invoke ?ex ''undo'' cmd [] (buildProps (shouldDispatch ?c)) spec_start) = Inr False"
    by (simp add: spec_editor_def spec_commands_def invoke_def)
  with z have "z = Callback False" by simp
  with z have 3: "callbacks (fst (chainedCommand ?ex spec_editor ''undo'' [] ?c spec_start))
        = [Callback True, Callback False]" by simp
  from 1 2 3 show ?thesis by (intro conjI)
qed

section \<open>A chain with no command\<close>

text \<open>
  C8. \<^verbatim>\<open>run()\<close> on a chain just created gives \<^verbatim>\<open>true\<close>; and when the chain comes from
  \<^verbatim>\<open>chain()\<close> (no start transaction, dispatching enabled) on a manager with no custom
  state, the new transaction, which has no step and no meta, is dispatched all the same.
\<close>

theorem empty_chain_run:
  "fst (run m (fst (createChain m startTr sd st)) (snd (createChain m startTr sd st))) = True
   \<and> (\<not> hasCustomState m \<longrightarrow>
        snd (run m (fst (createChain m None True st)) (snd (createChain m None True st)))
          = st\<lparr>tr := state_tr (state m), dispatched := dispatched st @ [state_tr (state m)]\<rparr>)
   \<and> steps (state_tr (state m)) = [] \<and> meta (state_tr (state m)) = []"
  by (simp add: run_def createChain_def view_dispatch_def getMeta_def state_tr_def)

theorem empty_chain_run_witness:
  "\<not> hasCustomState spec_editor
   \<and> run spec_editor (fst (createChain spec_editor None True spec_start))
        (snd (createChain spec_editor None True spec_start))
     = (True, \<lparr>tr = state_tr 0, dispatched = [state_tr 0], handed = []\<rparr>)"
proof -
  have custom: "\<not> hasCustomState spec_editor"
    by (simp add: hasCustomState_def spec_editor_def)
  have "state spec_editor = 0" by (simp add: state_def spec_editor_def)
  with empty_chain_run [of spec_editor None True spec_start] custom
  show ?thesis by (simp add: spec_start_def prod_eq_iff)
qed

section \<open>Unknown commands through the can evaluator\<close>

text \<open>
  C9. A property of the can evaluator other than \<^verbatim>\<open>chain\<close> that is no function of the
  raw-command table is a function that gives \<^verbatim>\<open>false\<close> for all arguments: it throws
  nothing and changes nothing.
\<close>

theorem can_unknown_command_false:
  assumes "prop \<noteq> ''chain''" "rawCommands m prop = None"
  shows "can_get (run_body d m) m prop args st = (Inr (CanBool False), st)"
  using assms by (simp add: can_get_def alwaysReturnFalse_def)

theorem can_unknown_command_false_witness:
  "can_get (run_body 1 spec_editor) spec_editor ''unknownCommand'' [JStr ''x''] spec_start
     = (Inr (CanBool False), spec_start)"
proof -
  have "''unknownCommand'' \<noteq> ''chain''" by simp
  moreover have "rawCommands spec_editor ''unknownCommand'' = None"
    by (simp add: spec_editor_def spec_commands_def)
  ultimately show ?thesis by (rule can_unknown_command_false)
qed

section \<open>Suppressed dispatch at every level of nesting\<close>

text \<open>
  C10. In a chain created with dispatching disabled, every command executed by the chained
  calls, directly or inside any chain, evaluator or single command that a command reaches
  through its props, is handed props whose \<^verbatim>\<open>dispatch\<close> is undefined, whose \<^verbatim>\<open>chain\<close>
  creates chains with dispatching disabled, and whose \<^verbatim>\<open>commands\<close> hand on an undefined
  \<^verbatim>\<open>dispatch\<close>.
\<close>

theorem suppressed_dispatch_propagates:
  assumes "\<not> shouldDispatch c"
  shows "\<exists>new. handed (snd (chain_calls (run_body d m) m calls c st)) = handed st @ new
           \<and> (\<forall>e \<in> set new. \<not> dispatch (snd e) \<and> \<not> chain_shouldDispatch (snd e)
                 \<and> \<not> commands_dispatch (snd e))"
  using chain_calls_hs [of "run_body d m" c st m calls, OF run_body_hs assms]
  by (auto simp: hands_suppressed_def suppressed_def list_all_iff)

theorem suppressed_dispatch_propagates_witness:
  "\<not> shouldDispatch (fst (createChain spec_editor (Some (state_tr 0)) False spec_start))
   \<and> (\<exists>new. handed (snd (chain_calls (run_body 2 spec_editor) spec_editor [(''outerCommand'', [])]
               (fst (createChain spec_editor (Some (state_tr 0)) False spec_start)) spec_start))
             = handed spec_start @ new
           \<and> (\<forall>e \<in> set new. \<not> dispatch (snd e) \<and> \<not> chain_shouldDispatch (snd e)
                 \<and> \<not> commands_dispatch (snd e)))
   \<and> handed (snd (chain_calls (run_body 2 spec_editor) spec_editor [(''outerCommand'', [])]
               (fst (createChain spec_editor (Some (state_tr 0)) False spec_start)) spec_start))
     = [(''outerCommand'', \<lparr>dispatch = False, chain_shouldDispatch = False, commands_dispatch = False\<rparr>),
        (''innerCommand'', \<lparr>dispatch = False, chain_shouldDispatch = False, commands_dispatch = False\<rparr>)]"
proof -
  let ?c = "fst (createChain spec_editor (Some (state_tr 0)) False spec_start)"
  have off: "\<not> shouldDispatch ?c" by (simp add: createChain_def)
  have "handed (snd (chain_calls (run_body 2 spec_editor) spec_editor [(''outerCommand'', [])]
               ?c spec_start))
     = [(''outerCommand'', \<lparr>dispatch = False, chain_shouldDispatch = False, commands_dispatch = False\<rparr>),
        (''innerCommand'', \<lparr>dispatch = False, chain_shouldDispatch = False, commands_dispatch = False\<rparr>)]"
    by (simp add: spec_defs Let_def eval_nat_numeral)
  with off suppressed_dispatch_propagates [OF off, of 2 spec_editor "[(''outerCommand'', [])]" spec_start]
  show ?thesis by blast
qed

end
